theory Spec2Isabelle
  imports Main "HOL-Library.Signed_Division"
begin

section \<open>Machine integers of the program\<close>

text \<open>
  The program computes on \<^verbatim>\<open>long long\<close> (64 bits, signed), \<^verbatim>\<open>unsigned long long\<close>
  (64 bits) and \<^verbatim>\<open>int\<close> (32 bits, signed). Values are modelled as mathematical integers
  and the width is written out where a result may leave the range of its type:
  \<open>u64\<close> is the conversion to \<^verbatim>\<open>unsigned long long\<close> (and the wrap-around of unsigned
  arithmetic), \<open>s64\<close> and \<open>s32\<close> are the two's complement wrap-around of the signed
  types. The C++ operators \<^verbatim>\<open>/\<close> and \<^verbatim>\<open>%\<close> on signed operands truncate towards zero:
  they are \<open>sdiv\<close> and \<open>smod\<close>.
\<close>

definition u64 :: "int \<Rightarrow> int" where
  "u64 k = k mod 2 ^ 64"

definition s64 :: "int \<Rightarrow> int" where
  "s64 k = (k + 2 ^ 63) mod 2 ^ 64 - 2 ^ 63"

definition s32 :: "int \<Rightarrow> int" where
  "s32 k = (k + 2 ^ 31) mod 2 ^ 32 - 2 ^ 31"

text \<open>
  What the source leaves undefined and a run can meet: the remainder by zero in \<^verbatim>\<open>modExp\<close>
  and the read of \<^verbatim>\<open>res[0]\<close> or \<^verbatim>\<open>res[1]\<close> beyond the end of the vector in
  \<^verbatim>\<open>primeFactors\<close>. Neither is an error the program signals: the program has no error
  values at all, only the numbers \<open>0\<close> and \<open>-1\<close> returned by \<^verbatim>\<open>modInverse\<close> and the attacks.
\<close>

datatype fault = DivisionByZero | VectorOutOfRange

section \<open>modExp\<close>

text \<open>
  \<^verbatim>\<open>unsigned long long modExp(unsigned long long a, long long e, unsigned long long b)\<close>:
  \<^verbatim>\<open>x = 1; a %= b; while (e > 0) { if (e % 2 == 1) x = (x * a) % b; a = (a * a) % b; e /= 2; }\<close>.
  The products are unsigned 64-bit products.
\<close>

function modExp_loop :: "int \<Rightarrow> int \<Rightarrow> int \<Rightarrow> int \<Rightarrow> int" where
  "modExp_loop x a e b =
     (if e > 0
      then modExp_loop (if e smod 2 = 1 then u64 (x * a) mod b else x) (u64 (a * a) mod b) (e sdiv 2) b
      else x)"
  by pat_completeness auto
termination
  by (relation "measure (\<lambda>(x, a, e, b). nat e)")
     (auto simp: signed_divide_int_def sgn_if)

declare modExp_loop.simps [simp del]

definition modExp :: "int \<Rightarrow> int \<Rightarrow> int \<Rightarrow> fault + int" where
  "modExp a e b = (if b = 0 then Inl DivisionByZero else Inr (modExp_loop 1 (a mod b) e b))"

section \<open>primeFactors\<close>

text \<open>
  \<^verbatim>\<open>while (x % 2 == 0) x /= 2;\<close> does not return for \<open>x = 0\<close>, so the loop is a partial
  function: \<open>None\<close> is a run that never returns.
\<close>

partial_function (option) halve :: "int \<Rightarrow> int option" where
  "halve x = (if x smod 2 = 0 then halve (x sdiv 2) else Some x)"

text \<open>\<^verbatim>\<open>while (x % i == 0) { res.push_back(i); x /= i; }\<close>\<close>

partial_function (option) divide_out :: "int \<Rightarrow> int \<Rightarrow> int list \<Rightarrow> (int list \<times> int) option" where
  "divide_out i x res =
     (if x smod i = 0 then divide_out i (x sdiv i) (res @ [i]) else Some (res, x))"

text \<open>
  The loop test \<^verbatim>\<open>i <= (sqrt(x))\<close> converts \<open>x\<close> to a double and compares with its square
  root: false for negative \<open>x\<close> (the root is not a number), and for \<open>0 \<le> x < 2 ^ 52\<close>, where
  the conversion is exact and the root correctly rounded, the test of \<open>i * i \<le> x\<close>.
\<close>

definition le_sqrt :: "int \<Rightarrow> int \<Rightarrow> bool" where
  "le_sqrt i x = (0 \<le> x \<and> (i \<le> 0 \<or> i * i \<le> x))"

text \<open>\<^verbatim>\<open>for (int i = 3; i <= (sqrt(x)); i += 2) { ... }\<close>, with \<open>i\<close> a 32-bit \<^verbatim>\<open>int\<close>.\<close>

partial_function (option) trial_loop :: "int \<Rightarrow> int \<Rightarrow> int list \<Rightarrow> (int list \<times> int) option" where
  "trial_loop i x res =
     (if le_sqrt i x
      then Option.bind (divide_out i x res) (\<lambda>(res', x'). trial_loop (s32 (i + 2)) x' res')
      else Some (res, x))"

text \<open>The vector \<open>res\<close> as it stands before \<^verbatim>\<open>p = res[0]; q = res[1];\<close>.\<close>

definition collect_factors :: "int \<Rightarrow> int list option" where
  "collect_factors x =
     Option.bind (halve x) (\<lambda>x1.
     Option.bind (trial_loop 3 x1 []) (\<lambda>(res, x2).
       Some (if x2 > 2 then res @ [x2] else res)))"

definition primeFactors :: "int \<Rightarrow> (fault + int \<times> int) option" where
  "primeFactors x =
     map_option (\<lambda>res. case res of p # q # _ \<Rightarrow> Inr (p, q) | _ \<Rightarrow> Inl VectorOutOfRange)
       (collect_factors x)"

declare halve.simps [code]
declare divide_out.simps [code]
declare trial_loop.simps [code]

section \<open>totient and modInverse\<close>

definition totient :: "int \<Rightarrow> int \<Rightarrow> int" where
  "totient p q = s64 ((p - 1) * (q - 1))"

text \<open>
  The loop of \<^verbatim>\<open>modInverse\<close> on the variables \<open>a\<close>, \<open>b\<close>, \<open>d\<close>, \<open>y\<close>, \<open>i\<close>; it returns the
  three that are read after it.
\<close>

function modInverse_loop :: "int \<Rightarrow> int \<Rightarrow> int \<Rightarrow> int \<Rightarrow> int \<Rightarrow> int \<times> int \<times> int" where
  "modInverse_loop a b d y i =
     (if b \<noteq> 0
      then (let q = s64 (a sdiv b); t1 = a smod b; t2 = s64 (d + q * y)
            in modInverse_loop b t1 y t2 (- i))
      else (a, d, i))"
  by pat_completeness auto
termination
proof (relation "measure (\<lambda>(a, b, d, y, i). nat \<bar>b\<bar>)")
  show "wf (measure (\<lambda>(a, b, d, y, i). nat \<bar>b\<bar>))"
    by simp
next
  fix a b d y i q t1 t2 :: int
  assume b: "b \<noteq> 0" and t1: "t1 = a smod b"
  have "\<bar>a smod b\<bar> < \<bar>b\<bar>"
    using smod_int_range [OF b, of a] by auto
  then show "((b, t1, y, t2, - i), (a, b, d, y, i)) \<in> measure (\<lambda>(a, b, d, y, i). nat \<bar>b\<bar>)"
    using t1 by simp
qed

declare modInverse_loop.simps [simp del]

definition modInverse :: "int \<Rightarrow> int \<Rightarrow> int" where
  "modInverse e phiN =
     (case modInverse_loop e phiN 1 0 1 of
        (a, d, i) \<Rightarrow> if a \<noteq> 1 then 0 else if i < 0 then s64 (phiN - d) else d)"

section \<open>The attacks\<close>

text \<open>
  \<^verbatim>\<open>for (long long m = 0; m < n; m++) if (modExp(m, e, n) == c) return m; return -1;\<close>
  The comparison is between an \<^verbatim>\<open>unsigned long long\<close> and a \<^verbatim>\<open>long long\<close>, which is
  converted.
\<close>

function attack1_loop :: "int \<Rightarrow> int \<Rightarrow> int \<Rightarrow> int \<Rightarrow> fault + int" where
  "attack1_loop e n c m =
     (if m < n
      then (case modExp (u64 m) e (u64 n) of
              Inl f \<Rightarrow> Inl f
            | Inr r \<Rightarrow> if r = u64 c then Inr m else attack1_loop e n c (m + 1))
      else Inr (- 1))"
  by pat_completeness auto
termination
  by (relation "measure (\<lambda>(e, n, c, m). nat (n - m))") auto

declare attack1_loop.simps [simp del]

definition attack1 :: "int \<Rightarrow> int \<Rightarrow> int \<Rightarrow> fault + int" where
  "attack1 e n c = attack1_loop e n c 0"

text \<open>\<^verbatim>\<open>for (long long m = 0; m < n; m++) if (ptext == m) return m; return -1;\<close>\<close>

function attack2_scan :: "int \<Rightarrow> int \<Rightarrow> int \<Rightarrow> int" where
  "attack2_scan ptext n m =
     (if m < n
      then (if ptext = u64 m then m else attack2_scan ptext n (m + 1))
      else - 1)"
  by pat_completeness auto
termination
  by (relation "measure (\<lambda>(ptext, n, m). nat (n - m))") auto

declare attack2_scan.simps [simp del]

text \<open>\<^verbatim>\<open>attack2\<close> returns \<open>m\<close> and, by reference, \<open>p\<close>, \<open>q\<close> and \<open>d\<close>.\<close>

definition attack2 :: "int \<Rightarrow> int \<Rightarrow> int \<Rightarrow> (fault + int \<times> int \<times> int \<times> int) option" where
  "attack2 e n c =
     (case primeFactors n of
        None \<Rightarrow> None
      | Some (Inl f) \<Rightarrow> Some (Inl f)
      | Some (Inr (p, q)) \<Rightarrow>
          (let d = modInverse e (totient p q)
           in case modExp (u64 c) d (u64 n) of
                Inl f \<Rightarrow> Some (Inl f)
              | Inr ptext \<Rightarrow> Some (Inr (attack2_scan ptext n 0, p, q, d))))"

section \<open>Primes\<close>

text \<open>
  The claims speak of primes. \<open>is_prime p\<close> tests every candidate divisor from \<open>2\<close> up to
  \<open>p - 1\<close>; it is a notion of the specification, not a function of the program.
\<close>

function no_divisor :: "int \<Rightarrow> int \<Rightarrow> int \<Rightarrow> bool" where
  "no_divisor d r p = (if d < r then \<not> d dvd p \<and> no_divisor (d + 1) r p else True)"
  by pat_completeness auto
termination
  by (relation "measure (\<lambda>(d, r, p). nat (r - d))") auto

declare no_divisor.simps [simp del]

definition is_prime :: "int \<Rightarrow> bool" where
  "is_prime p = (1 < p \<and> no_divisor 2 p p)"

section \<open>Values inside the range of their type\<close>

lemma u64_id: "0 \<le> k \<Longrightarrow> k < 2 ^ 64 \<Longrightarrow> u64 k = k"
  by (simp add: u64_def)

lemma s64_id: "- (2 ^ 63) \<le> k \<Longrightarrow> k < 2 ^ 63 \<Longrightarrow> s64 k = k"
  by (simp add: s64_def)

lemma s32_id: "- (2 ^ 31) \<le> k \<Longrightarrow> k < 2 ^ 31 \<Longrightarrow> s32 k = k"
  by (simp add: s32_def)

lemma sdiv_pos: "0 \<le> a \<Longrightarrow> 0 \<le> b \<Longrightarrow> a sdiv b = a div (b::int)"
  by (auto simp: signed_divide_int_def sgn_if)

lemma smod_pos: "0 \<le> a \<Longrightarrow> 0 \<le> b \<Longrightarrow> a smod b = a mod (b::int)"
  by (rule smod_mod_positive)

lemma u64_prod:
  assumes "0 \<le> x" "x \<le> b" "0 \<le> a" "a < b" "b * b \<le> 2 ^ 64"
  shows "u64 (x * a) = x * (a::int)"
proof -
  have "x * a \<le> b * a"
    using assms by (intro mult_right_mono) auto
  also have "b * a < b * b"
    using assms by (intro mult_strict_left_mono) auto
  finally have "x * a < 2 ^ 64"
    using assms by linarith
  moreover have "0 \<le> x * a"
    using assms by simp
  ultimately show ?thesis
    by (rule u64_id[rotated])
qed

lemma sq_le_64: "n * n \<le> 2 ^ 64 \<Longrightarrow> n \<le> (2 ^ 32 :: int)"
  using power2_le_imp_le [of n "2 ^ 32"] by (simp add: power2_eq_square)

lemma u64_neg: "- (2 ^ 63) \<le> c \<Longrightarrow> c < 0 \<Longrightarrow> u64 c = c + 2 ^ 64"
proof -
  assume c: "- (2 ^ 63) \<le> c" "c < 0"
  have "u64 c = (c + 2 ^ 64) mod 2 ^ 64"
    by (simp add: u64_def)
  also have "\<dots> = c + 2 ^ 64"
    using c by (intro mod_pos_pos_trivial) auto
  finally show ?thesis .
qed

lemma u64_long_long_neq:
  assumes c: "- (2 ^ 63) \<le> c" "c < 2 ^ 63" and r: "0 \<le> r" "r < 2 ^ 63" and ne: "r \<noteq> c"
  shows "r \<noteq> u64 c"
proof (cases "0 \<le> c")
  case True
  with c have "u64 c = c"
    by (intro u64_id) auto
  with ne show ?thesis by simp
next
  case False
  then have "u64 c = c + 2 ^ 64"
    using c by (intro u64_neg) auto
  with c r show ?thesis by simp
qed

section \<open>Modular exponentiation computes the power\<close>

lemma modExp_loop_stop: "e \<le> 0 \<Longrightarrow> modExp_loop x a e b = x"
  by (subst modExp_loop.simps) simp

lemma modExp_loop_step:
  "0 < e \<Longrightarrow> modExp_loop x a e b =
     modExp_loop (if odd e then u64 (x * a) mod b else x) (u64 (a * a) mod b) (e div 2) b"
  by (subst modExp_loop.simps) (simp add: sdiv_pos smod_pos odd_iff_mod_2_eq_one)

lemma modExp_loop_bound:
  "0 < b \<Longrightarrow> 0 \<le> x \<Longrightarrow> x < b \<Longrightarrow> 0 \<le> modExp_loop x a e b \<and> modExp_loop x a e b < b"
proof (induction x a e b rule: modExp_loop.induct)
  case (1 x a e b)
  show ?case
  proof (cases "e > 0")
    case True
    let ?x' = "if e smod 2 = 1 then u64 (x * a) mod b else x"
    have "0 \<le> ?x'" "?x' < b"
      using "1.prems" by auto
    with "1.IH" [OF True] "1.prems" True show ?thesis
      by (subst (1 2) modExp_loop.simps) simp
  next
    case False
    with "1.prems" show ?thesis
      by (simp add: modExp_loop_stop)
  qed
qed

lemma modExp_loop_pos:
  assumes "0 < b" "b * b \<le> 2 ^ 64" "0 \<le> x" "x \<le> b" "0 \<le> a" "a < b" "0 < e"
  shows "modExp_loop x a e b = (x * a ^ nat e) mod b"
  using assms
proof (induction x a e b rule: modExp_loop.induct)
  case (1 x a e b)
  let ?x' = "if odd e then u64 (x * a) mod b else x"
  let ?a' = "u64 (a * a) mod b"
  have xa: "u64 (x * a) = x * a"
    using "1.prems" by (intro u64_prod) auto
  have aa: "u64 (a * a) = a * a"
    using "1.prems" by (intro u64_prod) auto
  have x': "0 \<le> ?x'" "?x' \<le> b"
    using "1.prems" by (auto simp: less_imp_le)
  have a': "0 \<le> ?a'" "?a' < b"
    using "1.prems" by auto
  have odd_iff: "e smod 2 = 1 \<longleftrightarrow> odd e"
    using "1.prems" by (simp add: smod_pos odd_iff_mod_2_eq_one)
  have half: "e sdiv 2 = e div 2"
    using "1.prems" by (simp add: sdiv_pos)
  have unfold: "modExp_loop x a e b = modExp_loop ?x' ?a' (e div 2) b"
    using "1.prems" by (simp add: modExp_loop_step)
  show ?case
  proof (cases "e = 1")
    case True
    then have "modExp_loop ?x' ?a' (e div 2) b = ?x'"
      by (intro modExp_loop_stop) simp
    with unfold True xa show ?thesis
      by simp
  next
    case False
    with "1.prems" have pos: "0 < e sdiv 2"
      by (simp add: half)
    have IH: "modExp_loop ?x' ?a' (e div 2) b = (?x' * ?a' ^ nat (e div 2)) mod b"
      using "1.IH" [unfolded odd_iff half, OF \<open>0 < e\<close> \<open>0 < b\<close> \<open>b * b \<le> 2 ^ 64\<close> x' a'] pos
      by (simp only: half)
    have pw: "(?a' ^ nat (e div 2)) mod b = (a ^ (2 * nat (e div 2))) mod b"
      by (simp add: aa power_mod power_mult power2_eq_square)
    show ?thesis
    proof (cases "odd e")
      case True
      then have ne: "nat e = Suc (2 * nat (e div 2))"
        using "1.prems" by (auto elim!: oddE simp: nat_add_distrib nat_mult_distrib)
      have "(?x' * ?a' ^ nat (e div 2)) mod b = ((x * a) mod b * (?a' ^ nat (e div 2) mod b)) mod b"
        using True by (simp add: xa mod_mult_right_eq)
      also have "\<dots> = ((x * a) * a ^ (2 * nat (e div 2))) mod b"
        by (simp only: pw mod_mult_eq)
      finally show ?thesis
        using unfold IH by (simp add: ne mult.assoc)
    next
      case False
      then have ne: "nat e = 2 * nat (e div 2)"
        using "1.prems" by (auto elim!: evenE simp: nat_mult_distrib)
      have "(?x' * ?a' ^ nat (e div 2)) mod b = (x * (?a' ^ nat (e div 2) mod b)) mod b"
        using False by (simp add: mod_mult_right_eq)
      also have "\<dots> = (x * a ^ (2 * nat (e div 2))) mod b"
        by (simp only: pw mod_mult_right_eq)
      finally show ?thesis
        using unfold IH by (simp add: ne)
    qed
  qed
qed

lemma modExp_correct:
  assumes "0 \<le> a" "1 \<le> b" "b * b \<le> 2 ^ 64" "0 \<le> e" "2 \<le> b \<or> 1 \<le> e"
  shows "modExp a e b = Inr (a ^ nat e mod b)"
proof (cases "e = 0")
  case True
  with assms have "2 \<le> b" by auto
  with True show ?thesis
    by (simp add: modExp_def modExp_loop_stop)
next
  case False
  with assms have e: "0 < e" by simp
  have "modExp_loop 1 (a mod b) e b = (1 * (a mod b) ^ nat e) mod b"
    using assms e by (intro modExp_loop_pos) auto
  then show ?thesis
    using assms by (simp add: modExp_def power_mod)
qed

lemma modExp_Inr: "b \<noteq> 0 \<Longrightarrow> modExp a e b = Inr (modExp_loop 1 (a mod b) e b)"
  by (simp add: modExp_def)

lemma modExp_range:
  assumes "2 \<le> b"
  shows "\<exists>v. modExp a e b = Inr v \<and> 0 \<le> v \<and> v < b"
proof -
  have "0 \<le> modExp_loop 1 (a mod b) e b \<and> modExp_loop 1 (a mod b) e b < b"
    using assms by (intro modExp_loop_bound) auto
  with assms show ?thesis
    by (simp add: modExp_def)
qed

text \<open>
  Claim C9. The claim is that \<open>modExp a e b\<close> is \<open>a ^ e mod b\<close> for every modulus \<open>b \<ge> 1\<close>
  whose square fits 64 bits. For \<open>b \<ge> 2\<close>, and for \<open>b = 1\<close> with \<open>e \<ge> 1\<close>, that is lemma
  \<open>modExp_correct\<close>. At \<open>e = 0\<close> and \<open>b = 1\<close> the loop is not entered and the initial
  \<open>x = 1\<close> is returned unreduced, where the power modulo \<open>1\<close> is \<open>0\<close>.
\<close>

theorem modExp_zero_exponent_modulus_one:
  "modExp a 0 1 = Inr 1 \<and> a ^ nat 0 mod 1 = (0::int)"
  by (simp add: modExp_def modExp_loop_stop)

section \<open>The modular inverse\<close>

lemma modInverse_loop_stop: "modInverse_loop a 0 d y i = (a, d, i)"
  by (subst modInverse_loop.simps) simp

lemma modInverse_loop_step:
  "b \<noteq> 0 \<Longrightarrow> modInverse_loop a b d y i =
     modInverse_loop b (a smod b) y (s64 (d + s64 (a sdiv b) * y)) (- i)"
  by (subst modInverse_loop.simps) (simp add: Let_def)

lemma gcd_smod: "gcd b (a smod b) = gcd a (b::int)"
proof -
  have "a smod b = - (a sdiv b) * b + a"
    using minus_sdiv_mult_eq_smod [of a b] by simp
  then have "gcd b (a smod b) = gcd b (- (a sdiv b) * b + a)"
    by simp
  also have "\<dots> = gcd b a"
    by (rule gcd_add_mult)
  finally show ?thesis
    by (simp add: gcd.commute)
qed

lemma modInverse_loop_gcd:
  "modInverse_loop a b d y i = (a', d', i') \<Longrightarrow> \<bar>a'\<bar> = gcd a b"
proof (induction a b d y i rule: modInverse_loop.induct)
  case (1 a b d y i)
  show ?case
  proof (cases "b = 0")
    case True
    with "1.prems" show ?thesis
      by (simp add: modInverse_loop_stop)
  next
    case False
    let ?q = "s64 (a sdiv b)"
    have "modInverse_loop b (a smod b) y (s64 (d + ?q * y)) (- i) = (a', d', i')"
      using "1.prems" False by (simp add: modInverse_loop_step)
    then have "\<bar>a'\<bar> = gcd b (a smod b)"
      using False by (intro "1.IH" [of ?q "a smod b" "s64 (d + ?q * y)"]) auto
    then show ?thesis
      by (simp add: gcd_smod)
  qed
qed

lemma modInverse_no_inverse_aux:
  assumes "gcd e phiN \<noteq> 1"
  shows "modInverse e phiN = 0"
proof -
  obtain a d i where l: "modInverse_loop e phiN 1 0 1 = (a, d, i)"
    by (cases "modInverse_loop e phiN 1 0 1") auto
  then have "\<bar>a\<bar> = gcd e phiN"
    by (rule modInverse_loop_gcd)
  with assms have "a \<noteq> 1"
    by auto
  with l show ?thesis
    by (simp add: modInverse_def)
qed

text \<open>
  Claim C4, as amended. Whenever \<open>gcd e phiN \<noteq> 1\<close>, \<open>modInverse\<close> returns the number \<open>0\<close>:
  the loop leaves \<open>a\<close> equal to the gcd up to sign, and \<^verbatim>\<open>if (a != 1) return 0;\<close> follows.
  This holds for all inputs, of either sign.
\<close>

theorem modInverse_no_inverse:
  assumes "gcd e phiN \<noteq> 1"
  shows "modInverse e phiN = 0"
  using assms by (rule modInverse_no_inverse_aux)

theorem modInverse_no_inverse_witness:
  "gcd (6::int) 9 \<noteq> 1 \<and> modInverse 6 9 = 0"
proof -
  have "gcd (6::int) 9 \<noteq> 1"
    by code_simp
  with modInverse_no_inverse [of 6 9] show ?thesis
    by simp
qed

text \<open>
  Claim C4, as stated, asks for an explicit error value and not the number \<open>0\<close>. On the
  input \<open>e = 2\<close>, \<open>phiN = 4\<close> of the claim the value returned is the number \<open>0\<close>.
\<close>

theorem modInverse_2_4_returns_zero:
  "gcd (2::int) 4 = 2 \<and> modInverse 2 4 = 0"
  by code_simp

lemma modInverse_loop_inv:
  assumes "modInverse_loop a b d y i = (a', d', i')"
    and "0 \<le> a" "a < 2 ^ 63" "0 \<le> b" "b < 2 ^ 63"
    and "0 \<le> d" "d \<le> N" "0 \<le> y" "y \<le> N" "N < 2 ^ 63"
    and "a * y + b * d = N"
    and "i = 1 \<or> i = - 1"
    and "N dvd (e * d - i * a)" "N dvd (e * y + i * b)"
  shows "0 \<le> a' \<and> 0 \<le> d' \<and> d' \<le> N \<and> (i' = 1 \<or> i' = - 1) \<and> N dvd (e * d' - i' * a')"
  using assms
proof (induction a b d y i rule: modInverse_loop.induct)
  case (1 a b d y i)
  show ?case
  proof (cases "b = 0")
    case True
    with "1.prems" show ?thesis
      by (simp add: modInverse_loop_stop)
  next
    case False
    with "1.prems" have b: "0 < b" by simp
    have q: "a sdiv b = a div b" and t1: "a smod b = a mod b"
      using "1.prems" b by (simp_all add: sdiv_pos smod_pos)
    have qr: "0 \<le> a div b" "a div b \<le> a"
      using "1.prems" b zdiv_mono2 [of a 1 b] by (simp_all add: pos_imp_zdiv_nonneg_iff)
    have sq: "s64 (a div b) = a div b"
      using qr "1.prems" by (intro s64_id) auto
    let ?y' = "d + (a div b) * y"
    have ident: "b * ?y' + (a mod b) * y = N"
    proof -
      define k r where "k = a div b" and "r = a mod b"
      have "a = b * k + r"
        by (simp add: k_def r_def)
      then have "b * (d + k * y) + r * y = a * y + b * d"
        by (simp add: algebra_simps)
      then show ?thesis
        using "1.prems" by (simp add: k_def r_def)
    qed
    have y'0: "0 \<le> ?y'"
      using "1.prems" qr by simp
    have "0 \<le> (a mod b) * y"
      using "1.prems" b by simp
    with ident have "b * ?y' \<le> N"
      by linarith
    moreover have "?y' \<le> b * ?y'"
      using b y'0 by (simp add: mult_le_cancel_right1)
    ultimately have y'N: "?y' \<le> N"
      by linarith
    have st2: "s64 ?y' = ?y'"
      using y'0 y'N "1.prems" by (intro s64_id) auto
    have step: "modInverse_loop b (a mod b) y ?y' (- i) = (a', d', i')"
      using "1.prems"(1) False by (simp add: modInverse_loop_step q t1 sq st2)
    have c1: "N dvd (e * y - (- i) * b)"
      using "1.prems" by simp
    have "e * ?y' + (- i) * (a mod b) = (e * d - i * a) + (a div b) * (e * y + i * b)"
    proof -
      define k r where "k = a div b" and "r = a mod b"
      have "a = b * k + r"
        by (simp add: k_def r_def)
      then have "e * (d + k * y) + (- i) * r = (e * d - i * a) + k * (e * y + i * b)"
        by (simp add: algebra_simps)
      then show ?thesis
        by (simp add: k_def r_def)
    qed
    then have c2: "N dvd (e * ?y' + (- i) * (a mod b))"
      using "1.prems" by simp
    have i': "- i = 1 \<or> - i = - 1"
      using "1.prems" by auto
    have "0 \<le> a mod b" "a mod b < 2 ^ 63"
      using b "1.prems" by (simp_all add: pos_mod_bound [THEN less_trans])
    then show ?thesis
      using "1.prems" b y'0 y'N ident c1 c2 i' step
      by (intro "1.IH" [OF False refl refl refl, unfolded q t1 sq st2])
         (simp_all add: mult.commute)
  qed
qed

lemma modInverse_correct_aux:
  assumes "0 \<le> e" "e < 2 ^ 63" "2 \<le> phiN" "phiN < 2 ^ 63" "gcd e phiN = 1"
  shows "(e * modInverse e phiN) mod phiN = 1 \<and> 0 \<le> modInverse e phiN \<and> modInverse e phiN < phiN"
proof -
  obtain a d i where l: "modInverse_loop e phiN 1 0 1 = (a, d, i)"
    by (cases "modInverse_loop e phiN 1 0 1") auto
  have g: "\<bar>a\<bar> = 1"
    using modInverse_loop_gcd [OF l] assms by simp
  have inv: "0 \<le> a \<and> 0 \<le> d \<and> d \<le> phiN \<and> (i = 1 \<or> i = - 1) \<and> phiN dvd (e * d - i * a)"
    using assms by (intro modInverse_loop_inv [OF l]) auto
  with g have a: "a = 1" by simp
  define r where "r = (if i < 0 then phiN - d else d)"
  have r_range: "0 \<le> r" "r \<le> phiN"
    using inv assms by (auto simp: r_def)
  have res: "modInverse e phiN = r"
  proof -
    have "s64 (phiN - d) = phiN - d"
      using inv assms by (intro s64_id) auto
    then show ?thesis
      using l a by (simp add: modInverse_def r_def)
  qed
  have dv: "phiN dvd (e * r - 1)"
  proof (cases "i < 0")
    case True
    with inv have "i = - 1" by auto
    with inv a have *: "phiN dvd (e * d + 1)" by simp
    have "phiN dvd e * phiN" by simp
    from dvd_diff [OF this *] have "phiN dvd (e * phiN - (e * d + 1))" .
    moreover have "e * r - 1 = e * phiN - (e * d + 1)"
      using True by (simp add: r_def algebra_simps)
    ultimately show ?thesis
      by (simp only:)
  next
    case False
    with inv have "i = 1" by auto
    with inv a False show ?thesis by (simp add: r_def)
  qed
  have "r \<noteq> phiN"
  proof
    assume "r = phiN"
    with dv have *: "phiN dvd (e * phiN - 1)" by simp
    have "phiN dvd e * phiN" by simp
    from dvd_diff [OF this *] have "phiN dvd 1"
      by simp
    with assms show False by simp
  qed
  with r_range have lt: "r < phiN" by simp
  have "(e * r) mod phiN = 1 mod phiN"
    using dv by (simp add: mod_eq_dvd_iff)
  with assms have "(e * r) mod phiN = 1" by simp
  with r_range lt res show ?thesis by simp
qed

text \<open>
  Claim C3, as amended. For \<open>0 \<le> e\<close> and \<open>2 \<le> phiN\<close>, both of type \<^verbatim>\<open>long long\<close>, with
  \<open>gcd e phiN = 1\<close>, the value \<open>d\<close> returned by \<open>modInverse\<close> satisfies
  \<open>e * d mod phiN = 1\<close> and \<open>0 \<le> d < phiN\<close>.
\<close>

theorem modInverse_correct:
  assumes "0 \<le> e" "e < 2 ^ 63" "2 \<le> phiN" "phiN < 2 ^ 63" "gcd e phiN = 1"
  shows "(e * modInverse e phiN) mod phiN = 1 \<and> 0 \<le> modInverse e phiN \<and> modInverse e phiN < phiN"
  using assms by (rule modInverse_correct_aux)

theorem modInverse_correct_witness:
  "gcd (17::int) 3120 = 1 \<and> (17 * modInverse 17 3120) mod 3120 = 1 \<and>
   0 \<le> modInverse 17 3120 \<and> modInverse 17 3120 < 3120"
proof -
  have g: "gcd (17::int) 3120 = 1"
    by code_simp
  with modInverse_correct [of 17 3120] show ?thesis
    by simp
qed

text \<open>
  Claim C3, as stated, covers \<open>phiN = 1\<close>, where every \<open>e\<close> has \<open>gcd e 1 = 1\<close> and the only
  \<open>d\<close> with \<open>0 \<le> d < 1\<close> is \<open>0\<close>. After one turn of the loop \<open>d = 0\<close> and \<open>i = -1\<close>, and
  the result, made positive by \<^verbatim>\<open>res = phiN - d\<close>, is \<open>1\<close>.
\<close>

theorem modInverse_modulus_one:
  "gcd (3::int) 1 = 1 \<and> modInverse 3 1 = 1 \<and> \<not> modInverse 3 1 < 1"
  by code_simp

section \<open>Primes and their divisors\<close>

lemma no_divisor_iff: "no_divisor d r p \<longleftrightarrow> (\<forall>k. d \<le> k \<and> k < r \<longrightarrow> \<not> k dvd p)"
proof (induction d r p rule: no_divisor.induct)
  case (1 d r p)
  show ?case
  proof (cases "d < r")
    case True
    have "(\<forall>k. d \<le> k \<and> k < r \<longrightarrow> \<not> k dvd p) \<longleftrightarrow>
          \<not> d dvd p \<and> (\<forall>k. d + 1 \<le> k \<and> k < r \<longrightarrow> \<not> k dvd p)"
    proof -
      have "d \<le> k \<longleftrightarrow> k = d \<or> d + 1 \<le> k" for k
        by presburger
      with True show ?thesis
        by metis
    qed
    with "1.IH" [OF True] True show ?thesis
      by (subst no_divisor.simps) simp
  next
    case False
    then have "\<forall>k. d \<le> k \<and> k < r \<longrightarrow> \<not> k dvd p"
      by auto
    with False show ?thesis
      by (subst no_divisor.simps) simp
  qed
qed

lemma is_prime_iff: "is_prime p \<longleftrightarrow> 1 < p \<and> (\<forall>k. 2 \<le> k \<and> k < p \<longrightarrow> \<not> k dvd p)"
  by (simp add: is_prime_def no_divisor_iff)

lemma is_prime_gt1: "is_prime p \<Longrightarrow> 1 < p"
  by (simp add: is_prime_iff)

lemma is_prime_divisors:
  assumes "is_prime p" "d dvd p" "0 < d"
  shows "d = 1 \<or> d = p"
proof -
  have "d \<le> p"
    using assms by (intro zdvd_imp_le) (auto simp: is_prime_iff)
  with assms show ?thesis
    unfolding is_prime_iff by (smt (verit))
qed

lemma is_prime_coprime:
  assumes "is_prime p" "\<not> p dvd a"
  shows "coprime p a"
proof (rule coprimeI)
  fix c assume c: "c dvd p" "c dvd a"
  then have "\<bar>c\<bar> dvd p" "0 < \<bar>c\<bar>"
    using assms by (auto simp: is_prime_iff)
  then have "\<bar>c\<bar> = 1 \<or> \<bar>c\<bar> = p"
    using assms(1) by (intro is_prime_divisors)
  moreover have "\<bar>c\<bar> \<noteq> p"
    using c assms(2) by (metis abs_dvd_iff)
  ultimately show "is_unit c"
    by simp
qed

lemma is_prime_dvd_mult:
  assumes "is_prime p" "p dvd a * b"
  shows "p dvd a \<or> p dvd b"
  using assms is_prime_coprime coprime_dvd_mult_right_iff by blast

lemma semiprime_divisors:
  assumes p: "is_prime p" and q: "is_prime q" and d: "d dvd p * q" "0 < d"
  shows "d = 1 \<or> d = p \<or> d = q \<or> d = p * q"
proof (cases "p dvd d")
  case True
  then obtain k where k: "d = p * k" ..
  with d p have "k dvd q" "0 < k"
    by (auto simp: is_prime_iff zero_less_mult_iff)
  then have "k = 1 \<or> k = q"
    using q by (intro is_prime_divisors)
  with k show ?thesis by auto
next
  case False
  then have "coprime p d"
    using p by (rule is_prime_coprime[rotated])
  then have "coprime d p"
    by (simp add: coprime_commute)
  with d have "d dvd q"
    by (simp add: coprime_dvd_mult_right_iff)
  then have "d = 1 \<or> d = q"
    using q d by (intro is_prime_divisors)
  then show ?thesis by auto
qed

lemma is_prime_by_sqrt:
  assumes "1 < p" "p < r * r" "0 \<le> r" "no_divisor 2 r p"
  shows "is_prime p"
  unfolding is_prime_iff
proof (intro conjI allI impI notI)
  fix d assume d: "2 \<le> d \<and> d < p" and dp: "d dvd p"
  from dp obtain k where k: "p = d * k" ..
  have k0: "0 < k"
  proof (rule ccontr)
    assume "\<not> 0 < k"
    then have "d * k \<le> 0"
      using d by (simp add: mult_le_0_iff)
    with k assms show False by simp
  qed
  have "k \<noteq> 1"
    using k d by auto
  with k0 have k2: "2 \<le> k" by simp
  have "d < r \<or> k < r"
  proof (rule ccontr)
    assume "\<not> (d < r \<or> k < r)"
    then have "r * r \<le> d * k"
      using assms by (intro mult_mono) auto
    with k assms show False by simp
  qed
  moreover have "k dvd p"
    using k by simp
  ultimately show False
    using dp d k2 assms(4) unfolding no_divisor_iff by blast
qed (use assms in auto)

section \<open>Trial division\<close>

lemma halve_odd: "0 < x \<Longrightarrow> odd x \<Longrightarrow> halve x = Some x"
  by (subst halve.simps) (simp add: smod_pos odd_iff_mod_2_eq_one)

lemma divide_out_stop: "x smod i \<noteq> 0 \<Longrightarrow> divide_out i x res = Some (res, x)"
  by (subst divide_out.simps) simp

lemma divide_out_step:
  "x smod i = 0 \<Longrightarrow> divide_out i x res = divide_out i (x sdiv i) (res @ [i])"
  by (subst divide_out.simps) simp

lemma trial_loop_stop: "\<not> le_sqrt i x \<Longrightarrow> trial_loop i x res = Some (res, x)"
  by (subst trial_loop.simps) simp

lemma trial_loop_step:
  "le_sqrt i x \<Longrightarrow> divide_out i x res = Some (res', x') \<Longrightarrow>
   trial_loop i x res = trial_loop (s32 (i + 2)) x' res'"
  by (subst trial_loop.simps) simp

lemma sq_lt_52: "0 \<le> i \<Longrightarrow> i * i < 2 ^ 52 \<Longrightarrow> i < (2 ^ 26 :: int)"
  using power2_less_imp_less [of i "2 ^ 26"] by (simp add: power2_eq_square)

lemma next_trial:
  assumes "0 < i" "i * i \<le> x" "x < 2 ^ 52"
  shows "s32 (i + 2) = i + 2"
proof -
  have "i < 2 ^ 26"
    using assms by (intro sq_lt_52) auto
  then show ?thesis
    using assms by (intro s32_id) auto
qed

lemma trial_loop_pass:
  assumes "0 < i" "i * i \<le> x" "x < 2 ^ 52" "\<not> i dvd x"
  shows "trial_loop i x res = trial_loop (i + 2) x res"
proof -
  have x: "0 \<le> x"
    using assms by (smt (verit) zero_le_square)
  have "x smod i \<noteq> 0"
    using assms x by (simp add: smod_pos dvd_eq_mod_eq_0)
  then have "divide_out i x res = Some (res, x)"
    by (rule divide_out_stop)
  moreover have "le_sqrt i x"
    using assms x by (simp add: le_sqrt_def)
  ultimately show ?thesis
    using next_trial [OF assms(1-3)] by (simp add: trial_loop_step)
qed

lemma trial_loop_no_divisor:
  assumes "1 < i" "x < 2 ^ 52" "\<forall>k. i \<le> k \<and> k * k \<le> x \<longrightarrow> \<not> k dvd x"
  shows "trial_loop i x res = Some (res, x)"
  using assms
proof (induction "nat (x - i)" arbitrary: i rule: less_induct)
  case less
  show ?case
  proof (cases "le_sqrt i x")
    case False
    then show ?thesis by (rule trial_loop_stop)
  next
    case True
    with less.prems have sq: "i * i \<le> x"
      by (auto simp: le_sqrt_def)
    have "i * 1 < i * i"
      using less.prems by (intro mult_strict_left_mono) auto
    with sq have ix: "i < x" by simp
    have nd: "\<not> i dvd x"
      using less.prems sq by auto
    have "trial_loop i x res = trial_loop (i + 2) x res"
      using less.prems sq nd by (intro trial_loop_pass) auto
    also have "\<dots> = Some (res, x)"
      using less.prems ix by (intro less.hyps) auto
    finally show ?thesis .
  qed
qed

lemma trial_loop_skip:
  assumes "0 < i" "x < 2 ^ 52"
    and "\<forall>t. 0 \<le> t \<and> t < int k \<longrightarrow> (i + 2 * t) * (i + 2 * t) \<le> x \<and> \<not> (i + 2 * t) dvd x"
  shows "trial_loop i x res = trial_loop (i + 2 * int k) x res"
  using assms
proof (induction k arbitrary: i)
  case 0
  then show ?case by simp
next
  case (Suc k)
  have first: "i * i \<le> x" "\<not> i dvd x"
    using Suc.prems(3) [rule_format, of 0] by simp_all
  have "trial_loop i x res = trial_loop (i + 2) x res"
    using Suc.prems first by (intro trial_loop_pass) auto
  also have "\<dots> = trial_loop (i + 2 + 2 * int k) x res"
  proof (intro Suc.IH allI impI)
    fix t assume t: "0 \<le> t \<and> t < int k"
    then have "0 \<le> t + 1 \<and> t + 1 < int (Suc k)" by simp
    from Suc.prems(3) [rule_format, OF this]
    show "(i + 2 + 2 * t) * (i + 2 + 2 * t) \<le> x \<and> \<not> (i + 2 + 2 * t) dvd x"
      by (simp add: algebra_simps)
  qed (use Suc.prems in auto)
  finally show ?case
    by (simp add: algebra_simps)
qed

lemma collect_factors_odd_semiprime:
  assumes p: "is_prime p" and q: "is_prime q" and odd: "odd p" and lt: "p < q"
    and n: "p * q < 2 ^ 52"
  shows "collect_factors (p * q) = Some [p, q]"
proof -
  let ?n = "p * q"
  have p3: "3 \<le> p"
    using p odd by (cases "p = 2") (auto simp: is_prime_iff)
  have q3: "3 < q"
    using p3 lt by simp
  have n0: "0 < ?n"
    using p3 q3 by simp
  have oddn: "odd ?n"
  proof -
    have "\<not> 2 dvd q"
      using is_prime_divisors [OF q, of 2] q3 by auto
    with odd show ?thesis by simp
  qed
  have h: "halve ?n = Some ?n"
    using n0 oddn by (rule halve_odd)
  define k where "k = nat ((p - 3) div 2)"
  have pk: "p = 3 + 2 * int k"
    using p3 odd by (auto simp: k_def elim!: oddE)
  have "trial_loop 3 ?n [] = trial_loop (3 + 2 * int k) ?n []"
  proof (intro trial_loop_skip allI impI)
    fix t assume t: "0 \<le> t \<and> t < int k"
    let ?i = "3 + 2 * t"
    have i: "1 < ?i" "?i < p"
      using t pk by auto
    have "?i * ?i \<le> p * p"
      using i by (intro mult_mono) auto
    also have "p * p \<le> p * q"
      using lt p3 by (intro mult_left_mono) auto
    finally have sq: "?i * ?i \<le> ?n" .
    have "\<not> ?i dvd ?n"
    proof
      assume "?i dvd ?n"
      then have "?i = 1 \<or> ?i = p \<or> ?i = q \<or> ?i = p * q"
        using i by (intro semiprime_divisors [OF p q]) auto
      moreover have "p \<le> p * q"
        using p3 q3 by (simp add: mult_le_cancel_left1)
      ultimately show False
        using i lt by auto
    qed
    with sq show "?i * ?i \<le> ?n \<and> \<not> ?i dvd ?n" ..
  qed (use n in auto)
  then have skip: "trial_loop 3 ?n [] = trial_loop p ?n []"
    using pk by simp
  have npq: "\<not> p dvd q"
    using is_prime_divisors [OF q, of p] p3 lt by auto
  have "divide_out p ?n [] = divide_out p q [p]"
    using p3 q3 by (subst divide_out_step) (simp_all add: smod_pos sdiv_pos)
  also have "\<dots> = Some ([p], q)"
    using npq p3 q3 by (intro divide_out_stop) (simp add: smod_pos dvd_eq_mod_eq_0)
  finally have dv: "divide_out p ?n [] = Some ([p], q)" .
  have pp: "p * p \<le> ?n"
    using lt p3 by (intro mult_left_mono) auto
  then have "le_sqrt p ?n"
    using n0 by (simp add: le_sqrt_def)
  then have "trial_loop p ?n [] = trial_loop (s32 (p + 2)) q [p]"
    using dv by (rule trial_loop_step)
  also have "s32 (p + 2) = p + 2"
    using p3 pp n by (intro next_trial) auto
  also have "trial_loop (p + 2) q [p] = Some ([p], q)"
  proof (intro trial_loop_no_divisor allI impI)
    have "q * 1 \<le> p * q"
      using p3 q3 by simp
    with n show "q < 2 ^ 52" by simp
  next
    fix k assume k: "p + 2 \<le> k \<and> k * k \<le> q"
    then have k1: "1 < k"
      using p3 by simp
    then have "k * 1 < k * k"
      by (intro mult_strict_left_mono) auto
    with k have "k < q" by simp
    then show "\<not> k dvd q"
      using is_prime_divisors [OF q, of k] k1 by auto
  qed (use p3 in auto)
  finally have "trial_loop p ?n [] = Some ([p], q)" .
  with skip h q3 show ?thesis
    by (simp add: collect_factors_def)
qed

lemma primeFactors_odd_semiprime:
  assumes "is_prime p" "is_prime q" "odd p" "p < q" "p * q < 2 ^ 52"
  shows "primeFactors (p * q) = Some (Inr (p, q))"
  using collect_factors_odd_semiprime [OF assms] by (simp add: primeFactors_def)

lemma collect_factors_twice_prime:
  assumes q: "is_prime q" and oddq: "odd q" and r: "q < 2 ^ 52"
  shows "collect_factors (2 * q) = Some [q]"
proof -
  have q3: "3 \<le> q"
    using q oddq by (cases "q = 2") (auto simp: is_prime_iff)
  have "halve (2 * q) = halve q"
    using q3 by (subst halve.simps) (simp add: smod_pos sdiv_pos)
  also have "\<dots> = Some q"
    using q3 oddq by (intro halve_odd) auto
  finally have h: "halve (2 * q) = Some q" .
  have t: "trial_loop 3 q [] = Some ([], q)"
  proof (intro trial_loop_no_divisor allI impI)
    fix k :: int assume "3 \<le> k \<and> k * k \<le> q"
    then have k: "3 \<le> k" and sq: "k * k \<le> q"
      by simp_all
    have "k * 1 < k * k"
      using k by (intro mult_strict_left_mono) auto
    with sq have "k < q" by simp
    then show "\<not> k dvd q"
      using is_prime_divisors [OF q, of k] k by auto
  qed (use r in auto)
  show ?thesis
    using q3 by (simp add: collect_factors_def h t)
qed

text \<open>
  Claim C5. The claim is that \<open>primeFactors\<close> returns the two prime factors of every
  semiprime. For a product of two distinct odd primes below \<open>2 ^ 52\<close> that is lemma
  \<open>primeFactors_odd_semiprime\<close>. A factor \<open>2\<close> is divided out by the first loop and, unlike
  the factors found by the second loop, never pushed: for every odd prime \<open>q\<close> the vector of
  the semiprime \<open>2 * q\<close> holds only \<open>q\<close>, and the read of \<^verbatim>\<open>res[1]\<close> is beyond its end.
\<close>

theorem primeFactors_even_semiprime:
  assumes "is_prime q" "odd q" "q < 2 ^ 52"
  shows "collect_factors (2 * q) = Some [q] \<and> primeFactors (2 * q) = Some (Inl VectorOutOfRange)"
  using collect_factors_twice_prime [OF assms] by (simp add: primeFactors_def)

theorem primeFactors_even_semiprime_witness:
  "is_prime 2 \<and> is_prime 5 \<and> collect_factors (2 * 5) = Some [5] \<and>
   primeFactors (2 * 5) = Some (Inl VectorOutOfRange)"
proof -
  have p: "is_prime 2" and q: "is_prime 5"
    by code_simp+
  from primeFactors_even_semiprime [OF q] p q show ?thesis
    by simp
qed

section \<open>What trial division collects\<close>

lemma divide_out_spec:
  assumes "1 < i" "0 < x"
  shows "\<exists>k x'. divide_out i x res = Some (res @ replicate k i, x') \<and> x = i ^ k * x' \<and>
           0 < x' \<and> \<not> i dvd x'"
  using assms
proof (induction "nat x" arbitrary: x res rule: less_induct)
  case less
  show ?case
  proof (cases "i dvd x")
    case False
    then have "x smod i \<noteq> 0"
      using less.prems by (simp add: smod_pos dvd_eq_mod_eq_0)
    then have "divide_out i x res = Some (res @ replicate 0 i, x)"
      by (simp add: divide_out_stop)
    with False less.prems show ?thesis
      by (intro exI [of _ 0] exI [of _ x]) simp
  next
    case True
    then obtain x1 where x1: "x = i * x1" ..
    have x1_pos: "0 < x1"
      using less.prems x1 by (simp add: zero_less_mult_iff)
    have "x1 * 1 < x1 * i"
      using less.prems x1_pos by (intro mult_strict_left_mono) auto
    then have x1_lt: "x1 < x"
      using x1 by (simp add: mult.commute)
    have dv: "x sdiv i = x1"
      using less.prems x1 by (simp add: sdiv_pos)
    have "x smod i = 0"
      using less.prems True by (simp add: smod_pos dvd_eq_mod_eq_0)
    then have step: "divide_out i x res = divide_out i x1 (res @ [i])"
      by (simp add: divide_out_step dv)
    obtain k x' where IH: "divide_out i x1 (res @ [i]) = Some ((res @ [i]) @ replicate k i, x')"
        "x1 = i ^ k * x'" "0 < x'" "\<not> i dvd x'"
      using less.hyps [of x1 "res @ [i]"] x1_pos x1_lt less.prems by auto
    have "(res @ [i]) @ replicate k i = res @ replicate (Suc k) i"
      by simp
    with step IH x1 show ?thesis
      by (intro exI [of _ "Suc k"] exI [of _ x']) simp
  qed
qed

lemma halve_spec:
  assumes "0 < n"
  shows "\<exists>k x. halve n = Some x \<and> n = 2 ^ k * x \<and> odd x \<and> 0 < x"
  using assms
proof (induction "nat n" arbitrary: n rule: less_induct)
  case less
  show ?case
  proof (cases "even n")
    case False
    then have "halve n = Some n"
      using less.prems by (intro halve_odd) auto
    with False less.prems show ?thesis
      by (intro exI [of _ 0] exI [of _ n]) simp
  next
    case True
    then obtain n1 where n1: "n = 2 * n1" ..
    have pos: "0 < n1" and lt: "n1 < n"
      using less.prems n1 by auto
    have "halve n = halve n1"
      using less.prems n1 by (subst halve.simps) (simp add: smod_pos sdiv_pos)
    moreover obtain k x where "halve n1 = Some x" "n1 = 2 ^ k * x" "odd x" "0 < x"
      using less.hyps [of n1] pos lt by auto
    ultimately show ?thesis
      using n1 by (intro exI [of _ "Suc k"] exI [of _ x]) simp
  qed
qed

lemma no_small_divisor_prime:
  assumes nd: "\<forall>d. 1 < d \<and> d < i \<longrightarrow> \<not> d dvd x" and x: "1 < x" "x < i * i" "0 < i"
  shows "is_prime x"
  unfolding is_prime_iff
proof (intro conjI allI impI notI)
  fix d assume d: "2 \<le> d \<and> d < x" and dx: "d dvd x"
  from dx obtain k where k: "x = d * k" ..
  have k0: "0 < k"
  proof (rule ccontr)
    assume "\<not> 0 < k"
    then have "d * k \<le> 0"
      using d by (simp add: mult_le_0_iff)
    with k x show False by simp
  qed
  have "k \<noteq> 1"
    using k d by auto
  with k0 have k2: "1 < k" by simp
  have "k dvd x"
    using k by simp
  have "d < i \<or> k < i"
  proof (rule ccontr)
    assume "\<not> (d < i \<or> k < i)"
    then have "i * i \<le> d * k"
      using x by (intro mult_mono) auto
    with k x show False by simp
  qed
  then show False
    using nd d dx k2 \<open>k dvd x\<close> by auto
qed (use x in auto)

lemma no_small_divisor_ge:
  assumes "\<forall>d. 1 < d \<and> d < i \<longrightarrow> \<not> d dvd x" "1 < x"
  shows "i \<le> (x::int)"
  using assms by (meson dvd_refl not_le)

lemma trial_loop_spec:
  assumes "odd i" "3 \<le> i" "0 < x" "odd x" "x < 2 ^ 52"
    and "\<forall>d. 1 < d \<and> d < i \<longrightarrow> \<not> d dvd x"
  shows "\<exists>fs r. trial_loop i x res = Some (res @ fs, r) \<and> sorted fs \<and>
           (\<forall>f \<in> set fs. is_prime f \<and> i \<le> f) \<and> x = prod_list fs * r \<and> 0 < r \<and>
           (r = 1 \<or> (is_prime r \<and> i \<le> r \<and> (\<forall>f \<in> set fs. f \<le> r)))"
  using assms
proof (induction "nat (x - i)" arbitrary: i x res rule: less_induct)
  case less
  note nd = \<open>\<forall>d. 1 < d \<and> d < i \<longrightarrow> \<not> d dvd x\<close>
  show ?case
  proof (cases "le_sqrt i x")
    case False
    then have small: "x < i * i"
      using less.prems by (auto simp: le_sqrt_def)
    have stop: "trial_loop i x res = Some (res @ [], x)"
      using False by (simp add: trial_loop_stop)
    have "x = 1 \<or> (is_prime x \<and> i \<le> x)"
    proof (cases "x = 1")
      case False
      with less.prems have x1: "1 < x" by simp
      have "is_prime x"
        using nd x1 small less.prems by (intro no_small_divisor_prime [of i]) auto
      moreover have "i \<le> x"
        using nd x1 by (rule no_small_divisor_ge)
      ultimately show ?thesis by simp
    qed simp
    with stop less.prems show ?thesis
      by (intro exI [of _ "[]"] exI [of _ x]) auto
  next
    case True
    then have sq: "i * i \<le> x"
      using less.prems by (auto simp: le_sqrt_def)
    have "i * 1 < i * i"
      using less.prems by (intro mult_strict_left_mono) auto
    with sq have ix: "i < x" by simp
    obtain k x' where dv: "divide_out i x res = Some (res @ replicate k i, x')"
        and x': "x = i ^ k * x'" "0 < x'" "\<not> i dvd x'"
      using divide_out_spec [of i x res] less.prems by auto
    have x'dvd: "x' dvd x"
      using x' by simp
    then have x'le: "x' \<le> x"
      using less.prems by (intro zdvd_imp_le) auto
    have oddx': "odd x'"
      using x'dvd less.prems by (meson dvd_trans)
    have nd': "\<forall>d. 1 < d \<and> d < i + 2 \<longrightarrow> \<not> d dvd x'"
    proof (intro allI impI notI)
      fix d assume d: "1 < d \<and> d < i + 2" and dx: "d dvd x'"
      then have "d dvd x"
        using x'dvd by (meson dvd_trans)
      with nd d have "i \<le> d"
        by (meson not_le)
      with d have "d = i \<or> d = i + 1"
        by auto
      then show False
      proof
        assume "d = i"
        with dx x' show False by simp
      next
        assume "d = i + 1"
        then have "even d"
          using less.prems by simp
        with dx oddx' show False
          by (meson dvd_trans)
      qed
    qed
    have nxt: "s32 (i + 2) = i + 2"
      using less.prems sq by (intro next_trial) auto
    have step: "trial_loop i x res = trial_loop (i + 2) x' (res @ replicate k i)"
      using True dv by (simp add: trial_loop_step nxt)
    have x'52: "x' < 2 ^ 52"
      using x'le less.prems by simp
    have meas: "nat (x' - (i + 2)) < nat (x - i)"
      using x'le ix by simp
    have "\<exists>fs r. trial_loop (i + 2) x' (res @ replicate k i) = Some ((res @ replicate k i) @ fs, r) \<and>
           sorted fs \<and> (\<forall>f \<in> set fs. is_prime f \<and> i + 2 \<le> f) \<and> x' = prod_list fs * r \<and> 0 < r \<and>
           (r = 1 \<or> (is_prime r \<and> i + 2 \<le> r \<and> (\<forall>f \<in> set fs. f \<le> r)))"
    proof (rule less.hyps [OF meas])
      show "odd (i + 2)" "3 \<le> i + 2"
        using less.prems by simp_all
    qed (use x' oddx' x'52 nd' in auto)
    then obtain fs' r' where IH: "trial_loop (i + 2) x' (res @ replicate k i) =
          Some ((res @ replicate k i) @ fs', r')"
        "sorted fs'" "\<forall>f \<in> set fs'. is_prime f \<and> i + 2 \<le> f" "x' = prod_list fs' * r'" "0 < r'"
        "r' = 1 \<or> (is_prime r' \<and> i + 2 \<le> r' \<and> (\<forall>f \<in> set fs'. f \<le> r'))"
      by blast
    have prime_i: "is_prime i" if "0 < k"
    proof -
      have "i dvd x"
        using x' that by (cases k) auto
      then have "\<forall>d. 1 < d \<and> d < i \<longrightarrow> \<not> d dvd i"
        using nd by (meson dvd_trans)
      moreover have "i * 1 < i * i"
        using less.prems by (intro mult_strict_left_mono) auto
      ultimately show ?thesis
        using less.prems by (intro no_small_divisor_prime [of i]) auto
    qed
    let ?fs = "replicate k i @ fs'"
    have 1: "trial_loop i x res = Some (res @ ?fs, r')"
      using step IH(1) by simp
    have 2: "sorted ?fs"
      using IH(2,3) by (auto simp: sorted_append)
    have 3: "\<forall>f \<in> set ?fs. is_prime f \<and> i \<le> f"
      using IH(3) prime_i by auto
    have 4: "x = prod_list ?fs * r'"
      using x'(1) IH(4) by simp
    have 5: "r' = 1 \<or> (is_prime r' \<and> i \<le> r' \<and> (\<forall>f \<in> set ?fs. f \<le> r'))"
      using IH(6) by auto
    from 1 2 3 4 5 IH(5) show ?thesis
      by blast
  qed
qed

lemma collect_factors_spec:
  assumes "0 < n" "n < 2 ^ 52"
  shows "\<exists>fs k. collect_factors n = Some fs \<and> sorted fs \<and>
           (\<forall>f \<in> set fs. is_prime f \<and> odd f) \<and> n = 2 ^ k * prod_list fs"
proof -
  obtain k x where h: "halve n = Some x" "n = 2 ^ k * x" "odd x" "0 < x"
    using halve_spec [OF assms(1)] by auto
  have "x dvd n"
    using h by simp
  then have "x \<le> n"
    using assms by (intro zdvd_imp_le) auto
  with assms have x52: "x < 2 ^ 52" by simp
  have nd: "\<forall>d. 1 < d \<and> d < 3 \<longrightarrow> \<not> d dvd x"
  proof (intro allI impI)
    fix d :: int assume "1 < d \<and> d < 3"
    then have "d = 2" by auto
    with h show "\<not> d dvd x" by simp
  qed
  obtain fs r where t: "trial_loop 3 x [] = Some ([] @ fs, r)" "sorted fs"
      "\<forall>f \<in> set fs. is_prime f \<and> 3 \<le> f" "x = prod_list fs * r" "0 < r"
      "r = 1 \<or> (is_prime r \<and> 3 \<le> r \<and> (\<forall>f \<in> set fs. f \<le> r))"
    using trial_loop_spec [of 3 x "[]"] h x52 nd by auto
  define res where "res = (if r > 2 then fs @ [r] else fs)"
  have c: "collect_factors n = Some res"
    using h t(1) by (simp add: collect_factors_def res_def)
  have r_cases: "(r = 1 \<and> res = fs) \<or> (is_prime r \<and> res = fs @ [r] \<and> (\<forall>f \<in> set fs. f \<le> r))"
    using t(6) by (auto simp: res_def)
  have srt: "sorted res"
    using r_cases t(2) by (auto simp: sorted_append)
  have prd: "prod_list res = x"
    using r_cases t(4) by auto
  have "is_prime f \<and> odd f" if "f \<in> set res" for f
  proof -
    have pf: "is_prime f"
      using that r_cases t(3) by auto
    have "f dvd prod_list res"
      using that by (rule prod_list_dvd)
    then have "f dvd x"
      by (simp add: prd)
    then have "odd f"
      using h(3) by (meson dvd_trans)
    with pf show ?thesis by simp
  qed
  with c srt prd h(2) show ?thesis
    by (intro exI [of _ res] exI [of _ k]) auto
qed

lemma primeFactors_of_collected:
  assumes "collect_factors n = Some res"
  shows "primeFactors n =
           Some (if length res < 2 then Inl VectorOutOfRange else Inr (res ! 0, res ! 1))"
proof (cases res)
  case Nil
  with assms show ?thesis
    by (simp add: primeFactors_def)
next
  case (Cons p ps)
  with assms show ?thesis
    by (cases ps) (simp_all add: primeFactors_def)
qed

text \<open>
  Claim C6, as amended. For \<open>0 < n < 2 ^ 52\<close> the run of \<open>primeFactors\<close> returns, and the
  vector it collects is the ascending list of the odd prime factors of \<open>n\<close>, each as often
  as it divides \<open>n\<close>. Nothing is signalled: when the vector has two or more elements the
  first two are returned as \<open>(p, q)\<close> and the others dropped; when it has fewer than two,
  the read of \<^verbatim>\<open>res[0]\<close> or \<^verbatim>\<open>res[1]\<close> is beyond the end of the vector, which the source
  leaves undefined.
\<close>

theorem primeFactors_not_two_collected:
  assumes "0 < n" "n < 2 ^ 52"
  shows "\<exists>fs k. collect_factors n = Some fs \<and> sorted fs \<and>
           (\<forall>f \<in> set fs. is_prime f \<and> odd f) \<and> n = 2 ^ k * prod_list fs \<and>
           primeFactors n =
             Some (if length fs < 2 then Inl VectorOutOfRange else Inr (fs ! 0, fs ! 1))"
proof -
  obtain fs k where c: "collect_factors n = Some fs" "sorted fs"
      "\<forall>f \<in> set fs. is_prime f \<and> odd f" "n = 2 ^ k * prod_list fs"
    using collect_factors_spec [OF assms] by blast
  with primeFactors_of_collected [OF c(1)] show ?thesis
    by blast
qed

theorem primeFactors_not_two_collected_witness:
  "collect_factors 7 = Some [7] \<and> primeFactors 7 = Some (Inl VectorOutOfRange)"
proof -
  have c: "collect_factors 7 = Some [7]"
    by code_simp
  obtain fs where "collect_factors 7 = Some fs"
    "primeFactors 7 = Some (if length fs < 2 then Inl VectorOutOfRange else Inr (fs ! 0, fs ! 1))"
    using primeFactors_not_two_collected [of 7] by auto
  with c show ?thesis
    by simp
qed

text \<open>
  Claim C6, as stated, asks for an error in place of a factor pair whenever the collected
  vector does not hold exactly two elements. For \<open>n = 105 = 3 * 5 * 7\<close> it holds three and
  the pair \<open>(3, 5)\<close> is returned.
\<close>

theorem primeFactors_three_factors:
  "collect_factors 105 = Some [3, 5, 7] \<and> primeFactors 105 = Some (Inr (3, 5))"
  by code_simp

section \<open>The closing scan of attack2\<close>

lemma attack2_scan_finds:
  assumes "0 \<le> m" "m \<le> v" "v < n" "n \<le> 2 ^ 64"
  shows "attack2_scan v n m = v"
  using assms
proof (induction "nat (v - m)" arbitrary: m)
  case 0
  then have "m = v" by simp
  with 0 show ?case
    by (subst attack2_scan.simps) (simp add: u64_id)
next
  case (Suc k)
  then have lt: "m < v" by linarith
  have "u64 m = m"
    using Suc.prems lt by (intro u64_id) auto
  with lt Suc.prems have "attack2_scan v n m = attack2_scan v n (m + 1)"
    by (subst attack2_scan.simps) simp
  also have "\<dots> = v"
    using Suc.hyps(2) Suc.prems lt by (intro Suc.hyps(1)) auto
  finally show ?case .
qed

text \<open>
  Claim C10. For a modulus \<open>n \<ge> 2\<close> of type \<^verbatim>\<open>long long\<close>, whatever \<open>c\<close> and \<open>d\<close> are,
  \<open>modExp\<close> returns a value \<open>v\<close> with \<open>0 \<le> v < n\<close>; the scan of \<open>attack2\<close> for the
  \<open>m\<close> equal to \<open>v\<close> returns \<open>v\<close> itself and never reaches its final \<open>-1\<close>.
\<close>

theorem attack2_scan_redundant:
  assumes "2 \<le> n" "n < 2 ^ 63"
  shows "\<exists>v. modExp (u64 c) d (u64 n) = Inr v \<and> 0 \<le> v \<and> v < n \<and>
             attack2_scan v n 0 = v \<and> attack2_scan v n 0 \<noteq> - 1"
proof -
  have n: "u64 n = n"
    using assms by (intro u64_id) auto
  obtain v where v: "modExp (u64 c) d n = Inr v" "0 \<le> v" "v < n"
    using modExp_range [OF assms(1)] by blast
  have "attack2_scan v n 0 = v"
    using v assms by (intro attack2_scan_finds) auto
  with v n show ?thesis
    by auto
qed

theorem attack2_scan_redundant_witness:
  "(2::int) \<le> 3233 \<and> (3233::int) < 2 ^ 63 \<and>
   (\<exists>v. modExp (u64 2790) 2753 (u64 3233) = Inr v \<and> 0 \<le> v \<and> v < 3233 \<and>
        attack2_scan v 3233 0 = v \<and> attack2_scan v 3233 0 \<noteq> - 1)"
  using attack2_scan_redundant [of 3233 2790 2753] by simp

lemma attack2_returns_modExp:
  assumes pf: "primeFactors n = Some (Inr (p, q))" and n: "2 \<le> n" "n < 2 ^ 63"
  shows "\<exists>v. modExp (u64 c) (modInverse e (totient p q)) (u64 n) = Inr v \<and> 0 \<le> v \<and> v < n \<and>
             attack2 e n c = Some (Inr (v, p, q, modInverse e (totient p q)))"
proof -
  have un: "u64 n = n"
    using n by (intro u64_id) auto
  obtain v where v: "modExp (u64 c) (modInverse e (totient p q)) n = Inr v" "0 \<le> v" "v < n"
    using modExp_range [OF n(1)] by blast
  have "attack2_scan v n 0 = v"
    using v n by (intro attack2_scan_finds) auto
  with v show ?thesis
    by (simp add: attack2_def pf un)
qed

section \<open>The brute-force scan\<close>

lemma attack1_loop_exhaust:
  assumes "\<forall>j. m \<le> j \<and> j < n \<longrightarrow> (\<exists>r. modExp (u64 j) e (u64 n) = Inr r \<and> r \<noteq> u64 c)"
  shows "attack1_loop e n c m = Inr (- 1)"
  using assms
proof (induction e n c m rule: attack1_loop.induct)
  case (1 e n c m)
  show ?case
  proof (cases "m < n")
    case True
    then obtain r where r: "modExp (u64 m) e (u64 n) = Inr r" "r \<noteq> u64 c"
      using "1.prems" by auto
    have "attack1_loop e n c (m + 1) = Inr (- 1)"
      using "1.prems" by (intro "1.IH" [OF True r]) auto
    with True r show ?thesis
      by (subst attack1_loop.simps) simp
  next
    case False
    then show ?thesis
      by (subst attack1_loop.simps) simp
  qed
qed

lemma attack1_loop_finds:
  assumes "m \<le> k" "k < n" "modExp (u64 k) e (u64 n) = Inr (u64 c)"
    and "\<forall>j. m \<le> j \<and> j < k \<longrightarrow> (\<exists>r. modExp (u64 j) e (u64 n) = Inr r \<and> r \<noteq> u64 c)"
  shows "attack1_loop e n c m = Inr k"
  using assms
proof (induction e n c m rule: attack1_loop.induct)
  case (1 e n c m)
  have mn: "m < n"
    using "1.prems" by simp
  show ?case
  proof (cases "m = k")
    case True
    with mn "1.prems" show ?thesis
      by (subst attack1_loop.simps) simp
  next
    case False
    with "1.prems" have lt: "m < k" by simp
    then obtain r where r: "modExp (u64 m) e (u64 n) = Inr r" "r \<noteq> u64 c"
      using "1.prems" by auto
    have "attack1_loop e n c (m + 1) = Inr k"
      using "1.prems" lt by (intro "1.IH" [OF mn r]) auto
    with mn r show ?thesis
      by (subst attack1_loop.simps) simp
  qed
qed

text \<open>
  Claim C8, as amended. When no \<open>m\<close> in \<open>[0, n)\<close> has \<open>m ^ e mod n = c\<close>, \<open>attack1\<close> runs
  through the whole range and returns the number \<open>-1\<close>; the program has no error value
  to return instead. The inputs are those on which \<open>modExp\<close> is the power: \<open>n * n\<close> fits
  64 bits, \<open>e\<close> is not negative, and \<open>n = 1\<close> with \<open>e = 0\<close> is left out; \<open>c\<close> is a
  \<^verbatim>\<open>long long\<close>.
\<close>

theorem attack1_exhaustion:
  assumes n: "n * n \<le> 2 ^ 64" and e: "0 \<le> e" and ne: "n \<noteq> 1 \<or> e \<noteq> 0"
    and c: "- (2 ^ 63) \<le> c" "c < 2 ^ 63"
    and none: "\<forall>m. 0 \<le> m \<and> m < n \<longrightarrow> m ^ nat e mod n \<noteq> c"
  shows "attack1 e n c = Inr (- 1)"
proof -
  have n32: "n \<le> 2 ^ 32"
    using n by (rule sq_le_64)
  have "\<exists>r. modExp (u64 j) e (u64 n) = Inr r \<and> r \<noteq> u64 c" if j: "0 \<le> j" "j < n" for j
  proof -
    have n1: "1 \<le> n"
      using j by simp
    have un: "u64 n = n"
      using n1 n32 by (intro u64_id) auto
    have uj: "u64 j = j"
      using j n32 by (intro u64_id) auto
    have me: "modExp j e n = Inr (j ^ nat e mod n)"
      using j n1 n e ne by (intro modExp_correct) auto
    have "0 \<le> j ^ nat e mod n" "j ^ nat e mod n < n"
      using n1 by simp_all
    moreover have "j ^ nat e mod n \<noteq> c"
      using none j by simp
    ultimately have "j ^ nat e mod n \<noteq> u64 c"
      using c n32 by (intro u64_long_long_neq) auto
    with me un uj show ?thesis by simp
  qed
  then show ?thesis
    unfolding attack1_def by (intro attack1_loop_exhaust) auto
qed

theorem attack1_exhaustion_witness:
  "attack1 2 5 3 = Inr (- 1)"
proof -
  have none: "\<forall>m::int. 0 \<le> m \<and> m < 5 \<longrightarrow> m ^ nat 2 mod 5 \<noteq> 3"
  proof (intro allI impI)
    fix m :: int
    assume "0 \<le> m \<and> m < 5"
    then have "m = 0 \<or> m = 1 \<or> m = 2 \<or> m = 3 \<or> m = 4"
      by auto
    then show "m ^ nat 2 mod 5 \<noteq> 3"
      by auto
  qed
  with attack1_exhaustion [of 5 2 3] show ?thesis
    by simp
qed

text \<open>
  Claim C8, as stated, asks for an explicit error value and not the number \<open>-1\<close>. On
  \<open>e = 2\<close>, \<open>n = 3\<close>, \<open>c = 2\<close> no candidate matches (the squares modulo \<open>3\<close> are \<open>0\<close>,
  \<open>1\<close>, \<open>1\<close>) and the value returned is the number \<open>-1\<close>.
\<close>

theorem attack1_returns_minus_one:
  "(0::int) ^ 2 mod 3 \<noteq> 2 \<and> (1::int) ^ 2 mod 3 \<noteq> 2 \<and> (2::int) ^ 2 mod 3 \<noteq> 2 \<and>
   attack1 2 3 2 = Inr (- 1)"
  by code_simp

section \<open>The factoring attack without an inverse\<close>

text \<open>
  Claim C7, as amended. When \<open>primeFactors\<close> yields \<open>(p, q)\<close> and \<open>e\<close> is not coprime to
  \<open>totient p q\<close>, \<open>attack2\<close> signals nothing: \<open>modInverse\<close> returns \<open>0\<close>, so \<open>d = 0\<close>,
  \<open>modExp\<close> returns \<open>1\<close>, and for a modulus \<open>n \<ge> 2\<close> of type \<^verbatim>\<open>long long\<close> the scan finds
  \<open>1\<close>, which is returned as the plaintext.
\<close>

theorem attack2_no_inverse:
  assumes pf: "primeFactors n = Some (Inr (p, q))" and g: "gcd e (totient p q) \<noteq> 1"
    and n: "2 \<le> n" "n < 2 ^ 63"
  shows "attack2 e n c = Some (Inr (1, p, q, 0))"
proof -
  have d: "modInverse e (totient p q) = 0"
    using g by (rule modInverse_no_inverse_aux)
  have un: "u64 n = n"
    using n by (intro u64_id) auto
  have me: "modExp (u64 c) 0 n = Inr 1"
    using n by (simp add: modExp_def modExp_loop_stop)
  have sc: "attack2_scan 1 n 0 = 1"
    using n by (intro attack2_scan_finds) auto
  show ?thesis
    by (simp add: attack2_def pf d un me sc)
qed

theorem attack2_no_inverse_witness:
  "gcd 3 (totient 3 7) = 3 \<and> attack2 3 21 5 = Some (Inr (1, 3, 7, 0))"
proof -
  have pf: "primeFactors 21 = Some (Inr (3, 7))"
    by code_simp
  have g: "gcd 3 (totient 3 7) = 3"
    by code_simp
  with attack2_no_inverse [OF pf, of 3 5] show ?thesis
    by simp
qed

text \<open>
  Claim C7, as stated, asks for the failure of \<open>modInverse\<close> to reach the caller in place
  of a plaintext. For \<open>e = 2\<close>, \<open>n = 15\<close>, where \<open>gcd 2 8 = 2\<close>, the caller receives the
  plaintext \<open>1\<close> and \<open>d = 0\<close>.
\<close>

theorem attack2_returns_plaintext_without_inverse:
  "gcd 2 (totient 3 5) = 2 \<and> attack2 2 15 7 = Some (Inr (1, 3, 5, 0))"
  by code_simp

section \<open>Fermat's little theorem and the RSA identity\<close>

lemma is_prime_dvd_binomial:
  assumes p: "is_prime p" and k: "0 < k" "k < nat p"
  shows "p dvd int (nat p choose k)"
proof -
  obtain k' where k': "k = Suc k'"
    using k by (cases k) auto
  obtain n' where n': "nat p = Suc n'"
    using k by (cases "nat p") auto
  have pn: "p = int (Suc n')"
    using n' is_prime_gt1 [OF p] by linarith
  have "Suc k' * (Suc n' choose Suc k') = Suc n' * (n' choose k')"
    by (rule Suc_times_binomial)
  then have "int (Suc k') * int (Suc n' choose Suc k') = int (Suc n') * int (n' choose k')"
    by (metis of_nat_mult)
  then have "p dvd int (Suc k') * int (Suc n' choose Suc k')"
    using pn by simp
  moreover have "\<not> p dvd int (Suc k')"
    using k k' pn n' by (intro zdvd_not_zless) auto
  ultimately have "p dvd int (Suc n' choose Suc k')"
    using is_prime_dvd_mult [OF p] by blast
  then show ?thesis
    by (simp add: k' n')
qed

lemma fermat_step:
  assumes p: "is_prime p"
  shows "p dvd ((a + 1) ^ nat p - a ^ nat p - 1)"
proof -
  obtain n' where n': "nat p = Suc n'"
    using is_prime_gt1 [OF p] by (cases "nat p") auto
  define f where "f k = int (nat p choose k) * a ^ k" for k
  have "(a + 1) ^ nat p = (\<Sum>k\<le>nat p. f k)"
    by (simp add: binomial_ring f_def)
  also have "\<dots> = f (Suc n') + (\<Sum>k\<le>n'. f k)"
    by (simp add: n')
  also have "(\<Sum>k\<le>n'. f k) = f 0 + (\<Sum>k<n'. f (Suc k))"
    by (simp add: sum.atMost_shift)
  finally have "(a + 1) ^ nat p - a ^ nat p - 1 = (\<Sum>k<n'. f (Suc k))"
    by (simp add: f_def n' del: binomial_Suc_Suc)
  moreover have "p dvd (\<Sum>k<n'. f (Suc k))"
  proof (rule dvd_sum)
    fix k assume "k \<in> {..<n'}"
    then have "p dvd int (nat p choose Suc k)"
      using n' by (intro is_prime_dvd_binomial [OF p]) auto
    then show "p dvd f (Suc k)"
      unfolding f_def by (rule dvd_mult2)
  qed
  ultimately show ?thesis
    by simp
qed

lemma fermat_little:
  assumes p: "is_prime p" and a: "0 \<le> a"
  shows "p dvd (a ^ nat p - a)"
  using a
proof (induction a rule: int_ge_induct)
  case base
  have "nat p \<noteq> 0"
    using is_prime_gt1 [OF p] by simp
  then have z: "(0::int) ^ nat p = 0"
    by (simp add: power_0_left)
  show ?case
    unfolding z by simp
next
  case (step a)
  have "(a + 1) ^ nat p - (a + 1) = ((a + 1) ^ nat p - a ^ nat p - 1) + (a ^ nat p - a)"
    by simp
  then show ?case
    using fermat_step [OF p, of a] step.IH by (simp only: dvd_add)
qed

lemma fermat_coprime:
  assumes p: "is_prime p" and a: "0 \<le> a" "\<not> p dvd a"
  shows "a ^ (nat p - 1) mod p = 1"
proof -
  obtain n' where n': "nat p = Suc n'"
    using is_prime_gt1 [OF p] by (cases "nat p") auto
  have "a ^ nat p - a = a * (a ^ n' - 1)"
    by (simp add: n' algebra_simps)
  then have "p dvd a * (a ^ n' - 1)"
    using fermat_little [OF p a(1)] by simp
  then have "p dvd (a ^ n' - 1)"
    using is_prime_dvd_mult [OF p] a(2) by blast
  then have "a ^ n' mod p = 1 mod p"
    by (simp add: mod_eq_dvd_iff)
  then show ?thesis
    using is_prime_gt1 [OF p] by (simp add: n')
qed

lemma power_cycle:
  assumes p: "is_prime p" and a: "0 \<le> a"
  shows "a ^ (1 + t * (nat p - 1)) mod p = a mod p"
proof (cases "p dvd a")
  case True
  then have "p dvd a ^ (1 + t * (nat p - 1))"
    by simp
  with True show ?thesis
    by (simp add: dvd_eq_mod_eq_0 del: power_Suc)
next
  case False
  have one: "a ^ (nat p - 1) mod p = 1"
    using p a False by (rule fermat_coprime)
  define X where "X = (a ^ (nat p - 1)) ^ t"
  have "X mod p = (a ^ (nat p - 1) mod p) ^ t mod p"
    by (simp add: X_def power_mod)
  also have "\<dots> = 1 mod p"
    by (simp only: one power_one)
  finally have cyc: "X mod p = 1 mod p" .
  have "a ^ (1 + t * (nat p - 1)) = a * X"
    unfolding X_def by (simp only: power_add power_one_right mult.commute [of t] power_mult)
  also have "(a * X) mod p = (a * (X mod p)) mod p"
    by (simp add: mod_mult_right_eq)
  also have "\<dots> = (a * (1 mod p)) mod p"
    by (simp only: cyc)
  also have "\<dots> = a mod p"
    by (simp add: mod_mult_right_eq)
  finally show ?thesis .
qed

lemma rsa_identity:
  assumes p: "is_prime p" and q: "is_prime q" and pq: "p \<noteq> q" and m: "0 \<le> m"
    and k: "0 \<le> k" "k mod ((p - 1) * (q - 1)) = 1"
  shows "m ^ nat k mod (p * q) = m mod (p * q)"
proof -
  let ?phi = "(p - 1) * (q - 1)"
  have p1: "1 < p" and q1: "1 < q"
    using p q by (auto dest: is_prime_gt1)
  have phi: "0 < ?phi"
    using p1 q1 by simp
  define t where "t = nat (k div ?phi)"
  have k0: "0 \<le> k div ?phi"
    using k phi by (simp add: pos_imp_zdiv_nonneg_iff)
  have "k = ?phi * (k div ?phi) + k mod ?phi"
    by simp
  then have kk: "k = 1 + int t * ?phi"
    using k k0 by (simp add: t_def mult.commute)
  have np: "int (nat p - 1) = p - 1" and nq: "int (nat q - 1) = q - 1"
    using p1 q1 by auto
  have "int (nat k) = int (1 + t * (nat q - 1) * (nat p - 1))"
    using kk np nq by (simp add: mult.commute mult.left_commute)
  then have e1: "nat k = 1 + (t * (nat q - 1)) * (nat p - 1)"
    by (simp only: of_nat_eq_iff)
  then have e2: "nat k = 1 + (t * (nat p - 1)) * (nat q - 1)"
    by (simp add: mult.commute mult.left_commute)
  have "m ^ nat k mod p = m mod p"
    unfolding e1 using p m by (rule power_cycle)
  then have dp: "p dvd (m ^ nat k - m)"
    by (simp add: mod_eq_dvd_iff)
  have "m ^ nat k mod q = m mod q"
    unfolding e2 using q m by (rule power_cycle)
  then have dq: "q dvd (m ^ nat k - m)"
    by (simp add: mod_eq_dvd_iff)
  have "\<not> p dvd q"
    using is_prime_divisors [OF q, of p] p1 pq by auto
  then have "coprime p q"
    using p by (rule is_prime_coprime[rotated])
  with dp dq have "p * q dvd (m ^ nat k - m)"
    by (rule divides_mult)
  then show ?thesis
    by (simp add: mod_eq_dvd_iff)
qed

section \<open>The round trip\<close>

lemma round_trip_ordered:
  assumes p: "is_prime p" and q: "is_prime q" and oddp: "odd p" and lt: "p < q"
    and n: "n = p * q" "n * n \<le> 2 ^ 64"
    and e: "0 \<le> e" "e < 2 ^ 63" "gcd e ((p - 1) * (q - 1)) = 1"
    and m: "0 \<le> m" "m < n" and c: "c = m ^ nat e mod n"
  shows "attack1 e n c = Inr m \<and>
         attack2 e n c = Some (Inr (m, p, q, modInverse e ((p - 1) * (q - 1))))"
proof -
  let ?phi = "(p - 1) * (q - 1)"
  define d where "d = modInverse e ?phi"
  have p3: "3 \<le> p"
    using p oddp by (cases "p = 2") (auto simp: is_prime_iff)
  have q4: "4 \<le> q"
    using p3 lt by simp
  have n32: "n \<le> 2 ^ 32"
    using n(2) by (rule sq_le_64)
  have n2: "2 \<le> n"
  proof -
    have "3 * 4 \<le> p * q"
      using p3 q4 by (intro mult_mono) auto
    then show ?thesis
      using n by simp
  qed
  have un: "u64 n = n"
    using n2 n32 by (intro u64_id) auto
  have phi2: "2 \<le> ?phi"
  proof -
    have "2 * 3 \<le> (p - 1) * (q - 1)"
      using p3 q4 by (intro mult_mono) auto
    then show ?thesis by simp
  qed
  have phin: "?phi < n"
  proof -
    have "(p - 1) * (q - 1) \<le> p * (q - 1)"
      using p3 q4 by (intro mult_right_mono) auto
    also have "\<dots> < p * q"
      using p3 by (intro mult_strict_left_mono) auto
    finally show ?thesis
      using n by simp
  qed
  have inv: "(e * d) mod ?phi = 1 \<and> 0 \<le> d \<and> d < ?phi"
    unfolding d_def using e phi2 phin n32 by (intro modInverse_correct_aux) auto
  have ed: "nat e * nat d = nat (e * d)"
    using e inv by (simp add: nat_mult_distrib)
  have dec_enc: "(j ^ nat e mod n) ^ nat d mod n = j" if j: "0 \<le> j" "j < n" for j
  proof -
    have "(j ^ nat e mod n) ^ nat d mod n = (j ^ nat e) ^ nat d mod n"
      by (simp add: power_mod)
    also have "\<dots> = j ^ nat (e * d) mod n"
      by (simp add: ed flip: power_mult)
    also have "\<dots> = j mod n"
      unfolding n(1) using p q lt j(1) e inv
      by (intro rsa_identity) auto
    finally show ?thesis
      using j by simp
  qed
  have enc: "modExp (u64 j) e (u64 n) = Inr (j ^ nat e mod n)" if j: "0 \<le> j" "j < n" for j
  proof -
    have "u64 j = j"
      using j n32 by (intro u64_id) auto
    moreover have "modExp j e n = Inr (j ^ nat e mod n)"
      using j n2 n(2) e by (intro modExp_correct) auto
    ultimately show ?thesis
      by (simp add: un)
  qed
  have c_range: "0 \<le> c" "c < n"
    using n2 by (simp_all add: c)
  have uc: "u64 c = c"
    using c_range n32 by (intro u64_id) auto
  have a1: "attack1 e n c = Inr m"
    unfolding attack1_def
  proof (intro attack1_loop_finds allI impI)
    show "modExp (u64 m) e (u64 n) = Inr (u64 c)"
      unfolding uc unfolding c using m by (intro enc)
  next
    fix j assume j: "0 \<le> j \<and> j < m"
    then have jn: "0 \<le> j" "j < n"
      using m by auto
    have "j ^ nat e mod n \<noteq> c"
    proof
      assume "j ^ nat e mod n = c"
      then have "(j ^ nat e mod n) ^ nat d mod n = (m ^ nat e mod n) ^ nat d mod n"
        by (simp add: c)
      then have "j = m"
        using dec_enc [OF jn] dec_enc [OF m] by simp
      with j show False by simp
    qed
    then show "\<exists>r. modExp (u64 j) e (u64 n) = Inr r \<and> r \<noteq> u64 c"
      using enc [OF jn] by (simp add: uc)
  qed (use m in auto)
  have "p * q < 2 ^ 52"
    using n32 n(1) by simp
  then have pf: "primeFactors n = Some (Inr (p, q))"
    unfolding n(1) using p q oddp lt by (intro primeFactors_odd_semiprime) auto
  have tot: "totient p q = ?phi"
    unfolding totient_def using phi2 phin n32 by (intro s64_id) auto
  have "modExp c d n = Inr (c ^ nat d mod n)"
    using c_range n2 n(2) inv by (intro modExp_correct) auto
  also have "c ^ nat d mod n = m"
    unfolding c using m by (rule dec_enc)
  finally have dec: "modExp (u64 c) d (u64 n) = Inr m"
    by (simp add: uc un)
  have sc: "attack2_scan m n 0 = m"
    using m n32 by (intro attack2_scan_finds) auto
  have "attack2 e n c = Some (Inr (m, p, q, d))"
    using dec by (simp add: attack2_def pf tot sc flip: d_def)
  with a1 show ?thesis
    by (simp add: d_def)
qed

text \<open>
  Claim C1, as amended. Let \<open>p\<close> and \<open>q\<close> be distinct odd primes, \<open>n = p * q\<close> with \<open>n * n\<close>
  fitting the 64-bit unsigned word, \<open>e\<close> a non-negative \<^verbatim>\<open>long long\<close> with
  \<open>gcd e ((p - 1) * (q - 1)) = 1\<close>, and \<open>0 \<le> m < n\<close>. On the ciphertext \<open>c = m ^ e mod n\<close>
  the brute-force attack returns \<open>m\<close>, and the factoring attack returns \<open>m\<close> with the two
  primes, the smaller first, and the inverse of \<open>e\<close>.
\<close>

theorem attacks_round_trip:
  assumes "is_prime p" "is_prime q" "odd p" "odd q" "p \<noteq> q"
    and "n = p * q" "n * n \<le> 2 ^ 64"
    and "0 \<le> e" "e < 2 ^ 63" "gcd e ((p - 1) * (q - 1)) = 1"
    and "0 \<le> m" "m < n" and "c = m ^ nat e mod n"
  shows "attack1 e n c = Inr m \<and>
         attack2 e n c = Some (Inr (m, min p q, max p q, modInverse e ((p - 1) * (q - 1))))"
proof (cases "p < q")
  case True
  then have "min p q = p" "max p q = q"
    by simp_all
  then show ?thesis
    using round_trip_ordered [OF assms(1,2,3) True assms(6-13)] by (simp only:)
next
  case False
  with assms(5) have lt: "q < p" by simp
  then have mm: "min p q = q" "max p q = p"
    by simp_all
  have n: "n = q * p"
    using assms(6) by (simp only: mult.commute)
  have g: "gcd e ((q - 1) * (p - 1)) = 1"
    using assms(10) by (simp only: mult.commute)
  have "(p - 1) * (q - 1) = (q - 1) * (p - 1)"
    by (rule mult.commute)
  then show ?thesis
    using round_trip_ordered [OF assms(2,1,4) lt n assms(7-9) g assms(11-13)]
    by (simp only: mm)
qed

theorem attacks_round_trip_witness:
  "is_prime 11 \<and> is_prime 13 \<and> gcd 7 ((11 - 1) * (13 - 1)) = (1::int) \<and>
   (9::int) ^ nat 7 mod 143 = 48 \<and>
   attack1 7 143 48 = Inr 9 \<and> attack2 7 143 48 = Some (Inr (9, 11, 13, 103))"
proof -
  have p: "is_prime 11" and q: "is_prime 13"
    by code_simp+
  have g: "gcd 7 ((11 - 1) * (13 - 1)) = (1::int)"
    by code_simp
  have c: "(9::int) ^ nat 7 mod 143 = 48"
    by simp
  have d: "modInverse 7 ((11 - 1) * (13 - 1)) = 103"
    by code_simp
  have mm: "min (11::int) 13 = 11" "max (11::int) 13 = 13"
    by simp_all
  have "attack1 7 143 48 = Inr 9 \<and>
        attack2 7 143 48 = Some (Inr (9, min 11 13, max 11 13, modInverse 7 ((11 - 1) * (13 - 1))))"
    by (rule attacks_round_trip [OF p q _ _ _ _ _ _ _ g _ _ c [symmetric]]) simp_all
  then have "attack1 7 143 48 = Inr 9 \<and> attack2 7 143 48 = Some (Inr (9, 11, 13, 103))"
    by (simp only: d mm)
  with p q g c show ?thesis
    by (simp only: simp_thms)
qed

text \<open>
  Claim C1, as stated, covers every semiprime. For the primes \<open>131071\<close> and \<open>131101\<close> the
  modulus is above \<open>2 ^ 32\<close> and the 64-bit products of \<open>modExp\<close> wrap around: on the
  ciphertext \<open>128\<close> of the plaintext \<open>2\<close> under \<open>e = 7\<close> the factoring attack finds the
  primes and the inverse of \<open>e\<close>, and returns \<open>7586998358\<close>.
\<close>

theorem attack2_wide_modulus:
  "is_prime 131071 \<and> is_prime 131101 \<and> 131071 * 131101 = (17183539171::int) \<and>
   gcd 7 ((131071 - 1) * (131101 - 1)) = (1::int) \<and> (2::int) ^ nat 7 mod 17183539171 = 128 \<and>
   attack2 7 17183539171 128 = Some (Inr (7586998358, 131071, 131101, 14728523143))"
proof -
  have p: "is_prime 131071"
    by (rule is_prime_by_sqrt [where r = 363]) code_simp+
  have q: "is_prime 131101"
    by (rule is_prime_by_sqrt [where r = 363]) code_simp+
  have n: "131071 * 131101 = (17183539171::int)"
    by simp
  have g: "gcd 7 ((131071 - 1) * (131101 - 1)) = (1::int)"
    by code_simp
  have c: "(2::int) ^ nat 7 mod 17183539171 = 128"
    by simp
  have "primeFactors (131071 * 131101) = Some (Inr (131071, 131101))"
    using p q by (intro primeFactors_odd_semiprime) simp_all
  then have pf: "primeFactors 17183539171 = Some (Inr (131071, 131101))"
    by (simp only: n)
  have d: "modInverse 7 (totient 131071 131101) = 14728523143"
    by code_simp
  have pt: "modExp (u64 128) 14728523143 (u64 17183539171) = Inr 7586998358"
    by code_simp
  have sc: "attack2_scan 7586998358 17183539171 0 = 7586998358"
    by (rule attack2_scan_finds) simp_all
  have "attack2 7 17183539171 128 = Some (Inr (7586998358, 131071, 131101, 14728523143))"
    by (simp add: attack2_def pf d pt sc)
  with p q n g c show ?thesis
    by (simp only: simp_thms)
qed

section \<open>The concrete scenario\<close>

text \<open>
  Claim C2. On the input \<open>e = 17\<close>, \<open>n = 3233\<close>, \<open>c = 2790\<close> the brute-force attack
  returns \<open>65\<close>, and the factoring attack returns \<open>65\<close> with the factors \<open>53\<close> and \<open>61\<close>
  (the smaller one first) and the private exponent \<open>2753\<close>.
\<close>

theorem concrete_scenario:
  "attack1 17 3233 2790 = Inr 65 \<and>
   (\<exists>p q. attack2 17 3233 2790 = Some (Inr (65, p, q, 2753)) \<and> {p, q} = {61, 53})"
proof -
  have a1: "attack1 17 3233 2790 = Inr 65"
    by code_simp
  have a2: "attack2 17 3233 2790 = Some (Inr (65, 53, 61, 2753))"
    by code_simp
  have "{53, 61} = {61, 53::int}"
    by auto
  with a1 a2 show ?thesis
    by blast
qed

end
